theory Spec2Isabelle
  imports Complex_Main
begin

unbundle bit_operations_syntax

section \<open>The SPI decoder: data model\<close>

text \<open>
  The decoder of \<^verbatim>\<open>spi_decoder.py\<close> is a pipeline of three pure functions over
  Python lists. Analog samples are numbers compared with \<^verbatim>\<open>>=\<close> and \<^verbatim>\<open><=\<close>
  only; they are modelled as \<^typ>\<open>real\<close>, which orders the finite floating-point
  numbers as Python does. A digitised sample is the Python value
  \<^verbatim>\<open>0\<close>, \<^verbatim>\<open>1\<close> or \<^verbatim>\<open>None\<close> (the initial value of \<^verbatim>\<open>previous_data\<close>):
  an \<^typ>\<open>int option\<close>, with \<^term>\<open>None\<close> for Python's \<^verbatim>\<open>None\<close>. Python's unbounded
  integers are \<^typ>\<open>int\<close>. Every \<^verbatim>\<open>raise\<close> and every failing built-in operation is
  a value of the type \<open>error\<close>, returned in the left summand.
\<close>

type_synonym level = "int option"

datatype error =
    LengthsMustMatch
  | CannotGroup int int
  | ZeroDivisionError
  | IndexError

section \<open>convert_analog_to_digital\<close>

text \<open>
  The first sample decides the state from the thresholds alone, and leaves
  \<^verbatim>\<open>previous_data\<close> as it is (\<^verbatim>\<open>None\<close>) when the sample lies strictly between them.
\<close>

definition first_decision :: "real \<Rightarrow> real \<Rightarrow> real \<Rightarrow> level \<Rightarrow> level" where
  "first_decision threshold_low threshold_high val previous_data =
     (if val \<ge> threshold_high then Some 1
      else if val \<le> threshold_low then Some 0
      else previous_data)"

text \<open>
  Every later sample flips the state only from \<^verbatim>\<open>0\<close> at the high threshold and from
  \<^verbatim>\<open>1\<close> at the low threshold. The comparisons \<^verbatim>\<open>0 == previous_data\<close> and
  \<^verbatim>\<open>1 == previous_data\<close> are both false for \<^verbatim>\<open>None\<close>.
\<close>

definition hysteresis :: "real \<Rightarrow> real \<Rightarrow> real \<Rightarrow> level \<Rightarrow> level" where
  "hysteresis threshold_low threshold_high val previous_data =
     (if val \<ge> threshold_high \<and> Some 0 = previous_data then Some 1
      else if val \<le> threshold_low \<and> Some 1 = previous_data then Some 0
      else previous_data)"

text \<open>
  The \<^verbatim>\<open>for value in data\<close> loop, with its three variables \<^verbatim>\<open>data_filt\<close>,
  \<^verbatim>\<open>previous_data\<close> and \<^verbatim>\<open>first\<close> as arguments.
\<close>

fun adc_loop :: "real list \<Rightarrow> real \<Rightarrow> real \<Rightarrow> level list \<Rightarrow> level \<Rightarrow> bool \<Rightarrow> level list" where
  "adc_loop [] threshold_low threshold_high data_filt previous_data first = data_filt"
| "adc_loop (val # rest) threshold_low threshold_high data_filt previous_data first =
     (if first then
        (let previous_data' = first_decision threshold_low threshold_high val previous_data
         in adc_loop rest threshold_low threshold_high (data_filt @ [previous_data'])
              previous_data' False)
      else
        (let previous_data' = hysteresis threshold_low threshold_high val previous_data
         in adc_loop rest threshold_low threshold_high (data_filt @ [previous_data'])
              previous_data' first))"

definition convert_analog_to_digital :: "real list \<Rightarrow> real \<Rightarrow> real \<Rightarrow> level list" where
  "convert_analog_to_digital data threshold_low threshold_high =
     adc_loop data threshold_low threshold_high [] None True"

text \<open>
  The states the loop appends after the first sample, as a list: a view of the loop
  used to reason about its output by index.
\<close>

fun states_after :: "real \<Rightarrow> real \<Rightarrow> level \<Rightarrow> real list \<Rightarrow> level list" where
  "states_after threshold_low threshold_high previous_data [] = []"
| "states_after threshold_low threshold_high previous_data (val # rest) =
     hysteresis threshold_low threshold_high val previous_data #
     states_after threshold_low threshold_high
       (hysteresis threshold_low threshold_high val previous_data) rest"

section \<open>latch_data_on_sclk_to_bitstream\<close>

text \<open>
  Python's \<^verbatim>\<open>xs[i]\<close>: a negative index counts from the end, and an index outside the
  list raises \<^verbatim>\<open>IndexError\<close>.
\<close>

definition py_index :: "'a list \<Rightarrow> int \<Rightarrow> error + 'a" where
  "py_index xs i =
     (let k = (if i < 0 then i + int (length xs) else i)
      in if k < 0 \<or> int (length xs) \<le> k then Inl IndexError else Inr (xs ! nat k))"

text \<open>
  The test of the loop body at index \<open>i\<close>. Python's \<^verbatim>\<open>and\<close> reads
  \<^verbatim>\<open>sclk_digital[i-1]\<close> only when the first comparison holds.
\<close>

definition clock_edge :: "level list \<Rightarrow> bool \<Rightarrow> nat \<Rightarrow> error + bool" where
  "clock_edge sclk_digital rising_edge i =
     (if rising_edge then
        (case py_index sclk_digital (int i) of
           Inl e \<Rightarrow> Inl e
         | Inr cur \<Rightarrow>
             if Some 1 = cur then
               (case py_index sclk_digital (int i - 1) of
                  Inl e \<Rightarrow> Inl e
                | Inr prv \<Rightarrow> Inr (Some 0 = prv))
             else Inr False)
      else
        (case py_index sclk_digital (int i) of
           Inl e \<Rightarrow> Inl e
         | Inr cur \<Rightarrow>
             if Some 0 = cur then
               (case py_index sclk_digital (int i - 1) of
                  Inl e \<Rightarrow> Inl e
                | Inr prv \<Rightarrow> Inr (Some 1 = prv))
             else Inr False))"

text \<open>
  The loop \<^verbatim>\<open>for i in range(1, len(sclk_digital))\<close> over the list of its indices,
  with \<^verbatim>\<open>bit_stream\<close> as accumulator.
\<close>

fun latch_loop :: "level list \<Rightarrow> 'a list \<Rightarrow> bool \<Rightarrow> nat list \<Rightarrow> 'a list \<Rightarrow> error + 'a list" where
  "latch_loop sclk_digital data_digital rising_edge [] bit_stream = Inr bit_stream"
| "latch_loop sclk_digital data_digital rising_edge (i # rest) bit_stream =
     (case clock_edge sclk_digital rising_edge i of
        Inl e \<Rightarrow> Inl e
      | Inr edge \<Rightarrow>
          if edge then
            (case py_index data_digital (int i) of
               Inl e \<Rightarrow> Inl e
             | Inr d \<Rightarrow>
                 latch_loop sclk_digital data_digital rising_edge rest (bit_stream @ [d]))
          else latch_loop sclk_digital data_digital rising_edge rest bit_stream)"

definition latch_data_on_sclk_to_bitstream ::
  "level list \<Rightarrow> 'a list \<Rightarrow> bool \<Rightarrow> error + 'a list" where
  "latch_data_on_sclk_to_bitstream sclk_digital data_digital rising_edge =
     (if length sclk_digital \<noteq> length data_digital then Inl LengthsMustMatch
      else latch_loop sclk_digital data_digital rising_edge [1..<length sclk_digital] [])"

text \<open>
  The specification's qualifying edge at index \<open>i\<close>: rising is
  \<^verbatim>\<open>clock[i] == 1 and clock[i-1] == 0\<close>, falling is
  \<^verbatim>\<open>clock[i] == 0 and clock[i-1] == 1\<close>.
\<close>

definition qualifying_edge :: "level list \<Rightarrow> bool \<Rightarrow> nat \<Rightarrow> bool" where
  "qualifying_edge clock rising i =
     (if rising then clock ! i = Some 1 \<and> clock ! (i - 1) = Some 0
      else clock ! i = Some 0 \<and> clock ! (i - 1) = Some 1)"

section \<open>decode_bitstream\<close>

text \<open>
  Python's \<^verbatim>\<open>xs[start:stop]\<close>: a negative bound counts from the end, and both bounds
  are clamped to the list.
\<close>

definition py_bound :: "int \<Rightarrow> int \<Rightarrow> int" where
  "py_bound n k =
     (let k' = (if k < 0 then k + n else k)
      in if k' < 0 then 0 else if n < k' then n else k')"

definition py_slice :: "'a list \<Rightarrow> int \<Rightarrow> int \<Rightarrow> 'a list" where
  "py_slice xs start stop =
     (let n = int (length xs); lo = py_bound n start; hi = py_bound n stop
      in take (nat (hi - lo)) (drop (nat lo) xs))"

text \<open>
  The inner loop \<^verbatim>\<open>for j, bit in enumerate(ordered_group): number |= (bit << j)\<close>.
\<close>

fun accumulate :: "int list \<Rightarrow> nat \<Rightarrow> int \<Rightarrow> int" where
  "accumulate [] j number = number"
| "accumulate (b # rest) j number = accumulate rest (Suc j) (number OR push_bit j b)"

text \<open>
  Python's \<^verbatim>\<open>hex\<close>: lowercase digits without leading zeros after \<^verbatim>\<open>0x\<close>, and a
  minus sign in front for a negative number.
\<close>

definition hex_digit :: "nat \<Rightarrow> char" where
  "hex_digit d = ''0123456789abcdef'' ! d"

fun hex_digits :: "nat \<Rightarrow> string" where
  "hex_digits n =
     (if n < 16 then [hex_digit n] else hex_digits (n div 16) @ [hex_digit (n mod 16)])"

definition hex :: "int \<Rightarrow> string" where
  "hex n = (if n < 0 then ''-0x'' @ hex_digits (nat (- n)) else ''0x'' @ hex_digits (nat n))"

text \<open>An element of the returned list: a string when \<^verbatim>\<open>hexadecimal\<close>, else a number.\<close>

datatype decoded = Num int | Hex string

definition render :: "bool \<Rightarrow> int \<Rightarrow> decoded" where
  "render hexadecimal number = (if hexadecimal then Hex (hex number) else Num number)"

text \<open>The loop \<^verbatim>\<open>for i in range(groups_count)\<close>, with \<^verbatim>\<open>grouped_stream\<close> as accumulator.\<close>

fun decode_loop ::
  "int list \<Rightarrow> int \<Rightarrow> bool \<Rightarrow> bool \<Rightarrow> nat list \<Rightarrow> decoded list \<Rightarrow> decoded list" where
  "decode_loop bitstream group_by MSB_first hexadecimal [] grouped_stream = grouped_stream"
| "decode_loop bitstream group_by MSB_first hexadecimal (i # rest) grouped_stream =
     (let group = py_slice bitstream (int i * group_by) (group_by + int i * group_by);
          ordered_group = (if MSB_first then rev group else group);
          number = accumulate ordered_group 0 0
      in decode_loop bitstream group_by MSB_first hexadecimal rest
           (grouped_stream @ [render hexadecimal number]))"

text \<open>
  \<^verbatim>\<open>total_length % group_by\<close> raises \<^verbatim>\<open>ZeroDivisionError\<close> for a zero
  \<^verbatim>\<open>group_by\<close>; HOL's \<open>mod\<close> on \<^typ>\<open>int\<close> takes the sign of the divisor, as
  Python's \<^verbatim>\<open>%\<close> does. \<^verbatim>\<open>int(total_length / group_by)\<close> is reached only when
  \<^verbatim>\<open>group_by\<close> divides \<^verbatim>\<open>total_length\<close>, where the quotient is exact.
  \<^verbatim>\<open>range\<close> of a negative count is empty, as \<open>[0..<nat groups_count]\<close> is.
\<close>

definition decode_bitstream :: "int list \<Rightarrow> int \<Rightarrow> bool \<Rightarrow> bool \<Rightarrow> error + decoded list" where
  "decode_bitstream bitstream group_by MSB_first hexadecimal =
     (let total_length = int (length bitstream)
      in if group_by = 0 then Inl ZeroDivisionError
         else if total_length mod group_by \<noteq> 0 then Inl (CannotGroup group_by total_length)
         else
           (let groups_count = total_length div group_by
            in Inr (decode_loop bitstream group_by MSB_first hexadecimal
                      [0..<nat groups_count] [])))"

text \<open>
  The specification's value of a chunk, \<open>OR over j of (bit_j << j)\<close>, after reversing
  the chunk when it is read most significant bit first; and the chunks of a bit
  stream, consecutive and non-overlapping.
\<close>

definition or_over :: "int list \<Rightarrow> int" where
  "or_over bits = foldr (OR) (map (\<lambda>j. push_bit j (bits ! j)) [0..<length bits]) 0"

text \<open>
  The standard positional binary value of a list of bits, least significant bit
  first: bit \<open>j\<close> has weight \<open>2 ^ j\<close>.
\<close>

fun binary_value :: "int list \<Rightarrow> int" where
  "binary_value [] = 0"
| "binary_value (b # bs) = b + 2 * binary_value bs"

definition chunk_value :: "bool \<Rightarrow> int list \<Rightarrow> int" where
  "chunk_value msb_first chunk = or_over (if msb_first then rev chunk else chunk)"

definition chunks :: "nat \<Rightarrow> 'a list \<Rightarrow> 'a list list" where
  "chunks group_size bits =
     map (\<lambda>i. take group_size (drop (i * group_size) bits)) [0..<length bits div group_size]"

text \<open>
  The inverse operation of the specification: a number re-expanded into
  \<open>group_size\<close> bits, least significant bit first, or most significant bit first.
\<close>

fun expand_lsb :: "nat \<Rightarrow> int \<Rightarrow> int list" where
  "expand_lsb 0 n = []"
| "expand_lsb (Suc g) n = (n mod 2) # expand_lsb g (n div 2)"

definition expand_bits :: "nat \<Rightarrow> bool \<Rightarrow> int \<Rightarrow> int list" where
  "expand_bits group_size msb_first n =
     (if msb_first then rev (expand_lsb group_size n) else expand_lsb group_size n)"

section \<open>Properties of convert_analog_to_digital\<close>

lemma adc_loop_states_after:
  "adc_loop vs lo hi acc prev False = acc @ states_after lo hi prev vs"
  by (induction vs arbitrary: acc prev) (simp_all add: Let_def)

lemma convert_Nil: "convert_analog_to_digital [] lo hi = []"
  by (simp add: convert_analog_to_digital_def)

lemma convert_Cons:
  "convert_analog_to_digital (v # vs) lo hi =
     first_decision lo hi v None # states_after lo hi (first_decision lo hi v None) vs"
  by (simp add: convert_analog_to_digital_def Let_def adc_loop_states_after)

lemma length_states_after: "length (states_after lo hi prev vs) = length vs"
  by (induction vs arbitrary: prev) simp_all

lemma length_convert: "length (convert_analog_to_digital data lo hi) = length data"
  by (cases data) (simp_all add: convert_Nil convert_Cons length_states_after)

lemma states_after_nth:
  "i < length vs \<Longrightarrow>
   states_after lo hi prev vs ! i =
     hysteresis lo hi (vs ! i) (if i = 0 then prev else states_after lo hi prev vs ! (i - 1))"
proof (induction vs arbitrary: prev i)
  case Nil
  then show ?case by simp
next
  case (Cons v vs)
  show ?case
  proof (cases i)
    case 0
    then show ?thesis by simp
  next
    case (Suc k)
    with Cons.prems have k: "k < length vs" by simp
    from Cons.IH [OF k, of "hysteresis lo hi v prev"] Suc show ?thesis
      by (cases k) simp_all
  qed
qed

lemma convert_step:
  assumes "Suc i < length data"
  shows "convert_analog_to_digital data lo hi ! Suc i =
           hysteresis lo hi (data ! Suc i) (convert_analog_to_digital data lo hi ! i)"
proof (cases data)
  case Nil
  with assms show ?thesis by simp
next
  case (Cons v vs)
  with assms have i: "i < length vs" by simp
  from states_after_nth [OF i, of lo hi "first_decision lo hi v None"] Cons show ?thesis
    by (cases i) (simp_all add: convert_Cons)
qed

lemma states_after_None: "states_after lo hi None vs = replicate (length vs) None"
  by (induction vs) (simp_all add: hysteresis_def)

lemma hysteresis_binary:
  "prev = Some 0 \<or> prev = Some 1 \<Longrightarrow>
   hysteresis lo hi v prev = Some 0 \<or> hysteresis lo hi v prev = Some 1"
  by (auto simp add: hysteresis_def)

lemma states_after_binary:
  "prev = Some 0 \<or> prev = Some 1 \<Longrightarrow> set (states_after lo hi prev vs) \<subseteq> {Some 0, Some 1}"
proof (induction vs arbitrary: prev)
  case Nil
  then show ?case by simp
next
  case (Cons v vs)
  from hysteresis_binary [OF Cons.prems, of lo hi v]
  have next_binary: "hysteresis lo hi v prev = Some 0 \<or> hysteresis lo hi v prev = Some 1" .
  from Cons.IH [OF next_binary] next_binary show ?case by auto
qed

lemma convert_binary_when_decided:
  assumes "hi \<le> v \<or> v \<le> lo"
  shows "set (convert_analog_to_digital (v # vs) lo hi) \<subseteq> {Some 0, Some 1}"
proof -
  from assms have first: "first_decision lo hi v None = Some 0 \<or> first_decision lo hi v None = Some 1"
    by (auto simp add: first_decision_def)
  from states_after_binary [OF first, of lo hi vs] first show ?thesis
    by (auto simp add: convert_Cons)
qed

text \<open>
  C9. When the first of a non-empty list of samples lies strictly between the two
  thresholds, every element of the output of \<open>convert_analog_to_digital\<close> is the
  undefined marker \<open>None\<close>, whatever the later samples are: the undetermined state is
  absorbing.
\<close>

theorem convert_undetermined_absorbing:
  assumes "threshold_low < v" and "v < threshold_high"
  shows "convert_analog_to_digital (v # vs) threshold_low threshold_high =
           replicate (Suc (length vs)) None"
  using assms by (simp add: convert_Cons first_decision_def states_after_None)

theorem convert_undetermined_absorbing_witness:
  "(0.8::real) < 1.5 \<and> (1.5::real) < 2.0 \<and>
   convert_analog_to_digital [1.5, 2.5, 0.5, 3.0] 0.8 2.0 = [None, None, None, None]"
  using convert_undetermined_absorbing [of "0.8" "1.5" "2.0" "[2.5, 0.5, 3.0]"]
  by (simp add: numeral_eq_Suc)

text \<open>
  C2. The output of \<open>convert_analog_to_digital\<close> changes state only at the opposite
  threshold: after an output of 1 the next output is 1 unless the next sample is at
  or below \<open>threshold_low\<close>, after an output of 0 the next output is 0 unless the
  next sample is at or above \<open>threshold_high\<close>, and a sample strictly between the
  thresholds leaves the state as it was. The samples 0.0, 1.5, 2.5, 1.0, 0.5 with
  thresholds 0.8 and 2.0 give 0, 0, 1, 1, 0. The order of the two thresholds plays no
  part.
\<close>

theorem convert_dead_band_stability:
  assumes "Suc i < length samples"
  shows "(convert_analog_to_digital samples threshold_low threshold_high ! i = Some 1 \<longrightarrow>
            convert_analog_to_digital samples threshold_low threshold_high ! Suc i = Some 1 \<or>
            samples ! Suc i \<le> threshold_low) \<and>
         (convert_analog_to_digital samples threshold_low threshold_high ! i = Some 0 \<longrightarrow>
            convert_analog_to_digital samples threshold_low threshold_high ! Suc i = Some 0 \<or>
            threshold_high \<le> samples ! Suc i) \<and>
         (threshold_low < samples ! Suc i \<and> samples ! Suc i < threshold_high \<longrightarrow>
            convert_analog_to_digital samples threshold_low threshold_high ! Suc i =
            convert_analog_to_digital samples threshold_low threshold_high ! i) \<and>
         convert_analog_to_digital [0.0, 1.5, 2.5, 1.0, 0.5] 0.8 2.0 =
           [Some 0, Some 0, Some 1, Some 1, Some 0]"
proof -
  have example: "convert_analog_to_digital [0.0, 1.5, 2.5, 1.0, 0.5] 0.8 2.0 =
      [Some 0, Some 0, Some 1, Some 1, Some 0]"
    by (simp add: convert_analog_to_digital_def first_decision_def hysteresis_def Let_def)
  from convert_step [OF assms, of threshold_low threshold_high] example show ?thesis
    by (simp add: hysteresis_def)
qed

theorem convert_dead_band_stability_witness:
  "Suc 2 < length [3.0, 1.0, 0.5, 1.9, 2.1 :: real] \<and>
   convert_analog_to_digital [3.0, 1.0, 0.5, 1.9, 2.1] 0.8 2.0 ! 1 = Some 1 \<and>
   convert_analog_to_digital [3.0, 1.0, 0.5, 1.9, 2.1] 0.8 2.0 ! 2 = Some 0 \<and>
   convert_analog_to_digital [3.0, 1.0, 0.5, 1.9, 2.1] 0.8 2.0 ! Suc 2 = Some 0 \<and>
   \<not> (2.0::real) \<le> [3.0, 1.0, 0.5, 1.9, 2.1] ! Suc 2"
  using convert_dead_band_stability [of 2 "[3.0, 1.0, 0.5, 1.9, 2.1]" "0.8" "2.0"]
  by (simp add: convert_analog_to_digital_def first_decision_def hysteresis_def Let_def
      numeral_eq_Suc)

text \<open>
  C6. The output of \<open>convert_analog_to_digital\<close> has the length of its input
  (\<open>length_convert\<close>), and its elements are 0 or 1 when the first sample reaches
  a threshold (\<open>convert_binary_when_decided\<close>), but not always: a single sample of
  1.5 with thresholds 0.8 and 2.0 gives the list holding the undefined marker.
\<close>

theorem convert_first_sample_between_thresholds:
  "convert_analog_to_digital [1.5] 0.8 2.0 = [None]"
  by (simp add: convert_analog_to_digital_def first_decision_def Let_def)

section \<open>Properties of latch_data_on_sclk_to_bitstream\<close>

lemma clock_edge_in_range:
  assumes "1 \<le> i" and "i < length sclk"
  shows "clock_edge sclk re i = Inr (qualifying_edge sclk re i)"
proof -
  from assms have "int i - 1 = int (i - 1)" by simp
  with assms show ?thesis
    by (auto simp add: clock_edge_def py_index_def qualifying_edge_def simp del: of_nat_diff)
qed

lemma latch_loop_filter:
  assumes "\<forall>i\<in>set idx. 1 \<le> i \<and> i < length sclk" and "length data = length sclk"
  shows "latch_loop sclk data re idx acc =
           Inr (acc @ map ((!) data) (filter (qualifying_edge sclk re) idx))"
  using assms
proof (induction idx arbitrary: acc)
  case Nil
  then show ?case by simp
next
  case (Cons i idx)
  then have i: "1 \<le> i" "i < length sclk" and rest: "\<forall>k\<in>set idx. 1 \<le> k \<and> k < length sclk"
    by simp_all
  from i Cons.prems(2) have d: "py_index data (int i) = Inr (data ! i)"
    by (simp add: py_index_def)
  show ?case
    by (simp add: clock_edge_in_range [OF i] d Cons.IH [OF rest Cons.prems(2)])
qed

lemma latch_closed_form:
  "latch_data_on_sclk_to_bitstream clock data re =
     (if length clock \<noteq> length data then Inl LengthsMustMatch
      else Inr (map ((!) data) (filter (qualifying_edge clock re) [1..<length clock])))"
  by (simp add: latch_data_on_sclk_to_bitstream_def latch_loop_filter)

lemma count_edges:
  "length (filter P [1..<n]) = card {i. 1 \<le> i \<and> i < n \<and> P i}"
proof -
  have "{x. P x} \<inter> set [1..<n] = {i. 1 \<le> i \<and> i < n \<and> P i}" by auto
  then show ?thesis using distinct_length_filter [of "[1..<n]" P] by simp
qed

lemma length_filter_upt: "length (filter P [1..<n]) \<le> n - 1"
  using length_filter_le [of P "[1..<n]"] by simp

text \<open>
  C1. For a clock and a data sequence of equal length,
  \<open>latch_data_on_sclk_to_bitstream\<close> returns exactly the values \<open>data[i]\<close> at the
  indices \<open>i\<close> from 1 to \<open>len(clock) - 1\<close> with a qualifying edge, in increasing
  order of \<open>i\<close>; index 0 is not among them, so the value of \<open>data[0]\<close> has no effect;
  the length of the output is the number of qualifying edges; and the clock
  0,0,1,1,0,0,1,1 with the data 0,1,1,0,0,1,1,0 latched on rising edges gives 1,1.
  It holds for every clock sequence, binary or not.
\<close>

theorem latch_returns_data_at_edges:
  assumes "length clock = length data"
  shows "(\<exists>bit_stream.
            latch_data_on_sclk_to_bitstream clock data rising_edge = Inr bit_stream \<and>
            bit_stream =
              map (\<lambda>i. data ! i) (filter (qualifying_edge clock rising_edge) [1..<length clock]) \<and>
            length bit_stream =
              card {i. 1 \<le> i \<and> i < length clock \<and> qualifying_edge clock rising_edge i}) \<and>
         latch_data_on_sclk_to_bitstream clock (data[0 := x]) rising_edge =
           latch_data_on_sclk_to_bitstream clock data rising_edge \<and>
         latch_data_on_sclk_to_bitstream
           [Some 0, Some 0, Some 1, Some 1, Some 0, Some 0, Some 1, Some 1]
           [0, 1, 1, 0, 0, 1, 1, 0 :: int] True = Inr [1, 1]"
proof -
  let ?edges = "filter (qualifying_edge clock rising_edge) [1..<length clock]"
  have example: "latch_data_on_sclk_to_bitstream
      [Some 0, Some 0, Some 1, Some 1, Some 0, Some 0, Some 1, Some 1]
      [0, 1, 1, 0, 0, 1, 1, 0 :: int] True = Inr [1, 1]"
    by (simp add: latch_closed_form upt_conv_Cons qualifying_edge_def)
  have same: "map ((!) (data[0 := x])) ?edges = map ((!) data) ?edges"
    by (rule map_cong) auto
  have result: "latch_data_on_sclk_to_bitstream clock data rising_edge =
      Inr (map (\<lambda>i. data ! i) ?edges)"
    using assms by (simp add: latch_closed_form)
  have count: "length (map (\<lambda>i. data ! i) ?edges) =
      card {i. 1 \<le> i \<and> i < length clock \<and> qualifying_edge clock rising_edge i}"
    by (simp only: length_map count_edges)
  have index0: "latch_data_on_sclk_to_bitstream clock (data[0 := x]) rising_edge =
      latch_data_on_sclk_to_bitstream clock data rising_edge"
    using assms same by (simp add: latch_closed_form)
  from result count have "\<exists>bit_stream.
      latch_data_on_sclk_to_bitstream clock data rising_edge = Inr bit_stream \<and>
      bit_stream = map (\<lambda>i. data ! i) ?edges \<and>
      length bit_stream =
        card {i. 1 \<le> i \<and> i < length clock \<and> qualifying_edge clock rising_edge i}"
    by blast
  with index0 example show ?thesis
    by (intro conjI)
qed

theorem latch_returns_data_at_edges_witness:
  "length [Some 1, Some 1, Some 0, None, Some 1, Some (0::int)] = length ''abcdef'' \<and>
   latch_data_on_sclk_to_bitstream [Some 1, Some 1, Some 0, None, Some 1, Some 0] ''abcdef'' False =
     Inr ''cf'' \<and>
   latch_data_on_sclk_to_bitstream [Some 1, Some 1, Some 0, None, Some 1, Some 0] ''abcdef'' False =
     Inr (map (\<lambda>i. ''abcdef'' ! i) [2, 5])"
  using latch_returns_data_at_edges
    [of "[Some 1, Some 1, Some 0, None, Some 1, Some 0]" "''abcdef''" False]
  by (simp add: upt_conv_Cons qualifying_edge_def)

text \<open>
  C5. \<open>latch_data_on_sclk_to_bitstream\<close> raises the length-mismatch error exactly
  when the two lengths differ, and returns a bit stream exactly when they are equal.
  The result is either the error or the bit stream, so the error comes with no
  partial bit stream.
\<close>

theorem latch_length_mismatch:
  "(latch_data_on_sclk_to_bitstream clock data rising_edge = Inl LengthsMustMatch) =
     (length clock \<noteq> length data) \<and>
   (\<exists>bit_stream. latch_data_on_sclk_to_bitstream clock data rising_edge = Inr bit_stream) =
     (length clock = length data)"
  by (simp add: latch_closed_form)

theorem latch_length_mismatch_witness:
  "latch_data_on_sclk_to_bitstream [Some 0, Some 1] [1 :: int] True = Inl LengthsMustMatch \<and>
   length [Some 0, Some (1::int)] \<noteq> length [1 :: int] \<and>
   (\<exists>bit_stream.
      latch_data_on_sclk_to_bitstream [Some 0, Some 1] [1, 0 :: int] True = Inr bit_stream)"
  using latch_length_mismatch [of "[Some 0, Some 1]" "[1 :: int]" True]
    latch_length_mismatch [of "[Some 0, Some 1]" "[1, 0 :: int]" True]
  by simp

text \<open>
  C8, as stated, at the empty clock and data: the bit stream returned is empty, of
  length 0, and \<open>len(clock) - 1\<close> is \<open>-1\<close>.
\<close>

theorem latch_empty_not_below_length_minus_one:
  "latch_data_on_sclk_to_bitstream [] ([] :: int list) True = Inr [] \<and>
   \<not> int (length ([] :: int list)) \<le> int (length ([] :: level list)) - 1"
  by (simp add: latch_data_on_sclk_to_bitstream_def)

text \<open>
  C8, amended. For a non-empty clock and a data sequence of the same length, and
  either edge direction, \<open>latch_data_on_sclk_to_bitstream\<close> returns a bit stream of
  length at most \<open>len(clock) - 1\<close>; for an empty clock and data it returns the empty
  bit stream.
\<close>

theorem latch_length_bound:
  assumes "length clock = length data" and "clock \<noteq> []"
  shows "(\<exists>bit_stream.
            latch_data_on_sclk_to_bitstream clock data rising_edge = Inr bit_stream \<and>
            int (length bit_stream) \<le> int (length clock) - 1) \<and>
         latch_data_on_sclk_to_bitstream [] ([] :: 'a list) rising_edge = Inr []"
proof -
  from assms(2) have "0 < length clock" by simp
  with length_filter_upt [of "qualifying_edge clock rising_edge" "length clock"]
  have "int (length (filter (qualifying_edge clock rising_edge) [1..<length clock])) \<le>
          int (length clock) - 1"
    by linarith
  with assms(1) show ?thesis
    by (simp add: latch_closed_form)
qed

theorem latch_length_bound_witness:
  "length [Some 0, Some 1, Some 0, Some (1::int)] = length [7, 8, 9, 10 :: int] \<and>
   [Some 0, Some 1, Some 0, Some (1::int)] \<noteq> [] \<and>
   latch_data_on_sclk_to_bitstream [Some 0, Some 1, Some 0, Some 1] [7, 8, 9, 10 :: int] True =
     Inr [8, 10] \<and>
   int (length [8, 10 :: int]) \<le> int (length [Some 0, Some 1, Some 0, Some (1::int)]) - 1"
  using latch_length_bound [of "[Some 0, Some 1, Some 0, Some 1]" "[7, 8, 9, 10 :: int]" True]
  by (simp add: latch_closed_form upt_conv_Cons qualifying_edge_def)

section \<open>Properties of decode_bitstream\<close>

lemma or_push_bit_disjoint:
  fixes acc :: int
  assumes "0 \<le> acc" and "acc < 2 ^ j" and "b = 0 \<or> b = 1"
  shows "acc OR push_bit j b = acc + 2 ^ j * b"
proof (cases "b = 0")
  case True
  then show ?thesis by simp
next
  case False
  with assms(3) have b: "b = 1" by simp
  from assms(1,2) have "take_bit j acc = acc" by (simp add: take_bit_int_eq_self)
  then have "acc AND 2 ^ j = take_bit j acc AND 2 ^ j" by simp
  also have "\<dots> = 0"
    by (rule bit_eqI) (simp add: bit_and_iff bit_take_bit_iff bit_exp_iff)
  finally have "acc + 2 ^ j = acc OR 2 ^ j" by (rule disjunctive_add_eq_or)
  with b show ?thesis by (simp add: push_bit_eq_mult)
qed

lemma accumulate_binary:
  assumes "set bs \<subseteq> {0, 1}" and "0 \<le> acc" and "acc < 2 ^ j"
  shows "accumulate bs j acc = acc + 2 ^ j * binary_value bs"
  using assms
proof (induction bs arbitrary: j acc)
  case Nil
  then show ?case by simp
next
  case (Cons b bs)
  then have b: "b = 0 \<or> b = 1" and bs: "set bs \<subseteq> {0, 1}" by auto
  have step: "acc OR push_bit j b = acc + 2 ^ j * b"
    using Cons.prems(2,3) b by (rule or_push_bit_disjoint)
  have nonneg: "0 \<le> acc + 2 ^ j * b" using Cons.prems(2) b by auto
  have less: "acc + 2 ^ j * b < 2 ^ Suc j"
  proof -
    from Cons.prems(2,3) have "acc < 2 * 2 ^ j" and "acc + 2 ^ j < 2 * 2 ^ j" by linarith+
    with b show ?thesis by auto
  qed
  have "accumulate (b # bs) j acc = accumulate bs (Suc j) (acc + 2 ^ j * b)"
    by (simp add: step)
  also have "\<dots> = acc + 2 ^ j * b + 2 ^ Suc j * binary_value bs"
    by (rule Cons.IH [OF bs nonneg less])
  also have "\<dots> = acc + 2 ^ j * binary_value (b # bs)"
    by (simp add: algebra_simps)
  finally show ?case .
qed

lemma binary_value_bounds:
  assumes "set bs \<subseteq> {0, 1}"
  shows "0 \<le> binary_value bs \<and> binary_value bs < 2 ^ length bs"
  using assms
proof (induction bs)
  case Nil
  then show ?case by simp
next
  case (Cons b bs)
  then have "b = 0 \<or> b = 1" and "0 \<le> binary_value bs" and "binary_value bs < 2 ^ length bs"
    by auto
  then show ?case by auto
qed

lemma expand_lsb_binary_value:
  assumes "set bs \<subseteq> {0, 1}"
  shows "expand_lsb (length bs) (binary_value bs) = bs"
  using assms
proof (induction bs)
  case Nil
  then show ?case by simp
next
  case (Cons b bs)
  then have "b = 0 \<or> b = 1" and "expand_lsb (length bs) (binary_value bs) = bs"
    by auto
  then show ?case by auto
qed

lemma length_expand_lsb: "length (expand_lsb g n) = g"
  by (induction g n rule: expand_lsb.induct) simp_all

lemma set_expand_lsb: "set (expand_lsb g n) \<subseteq> {0, 1}"
  by (induction g n rule: expand_lsb.induct) auto

lemma binary_value_expand_lsb:
  assumes "0 \<le> n" and "n < 2 ^ g"
  shows "binary_value (expand_lsb g n) = n"
  using assms
proof (induction g arbitrary: n)
  case 0
  then show ?case by simp
next
  case (Suc g)
  then have "0 \<le> n div 2" and "n div 2 < 2 ^ g" by auto
  with Suc.IH have "binary_value (expand_lsb g (n div 2)) = n div 2" by blast
  then show ?case by simp
qed

lemma binary_value_sum: "binary_value bs = (\<Sum>j<length bs. bs ! j * 2 ^ j)"
proof (induction bs)
  case Nil
  then show ?case by simp
next
  case (Cons b bs)
  have "(\<Sum>j<Suc (length bs). (b # bs) ! j * 2 ^ j) =
          b + (\<Sum>j<length bs. bs ! j * 2 ^ Suc j)"
    by (simp add: sum.lessThan_Suc_shift del: sum.lessThan_Suc)
  also have "(\<Sum>j<length bs. bs ! j * 2 ^ Suc j) = 2 * (\<Sum>j<length bs. bs ! j * 2 ^ j)"
    by (simp add: sum_distrib_left mult.assoc mult.left_commute)
  finally show ?case using Cons.IH by simp
qed


lemma py_bound_inside: "0 \<le> k \<Longrightarrow> k \<le> n \<Longrightarrow> py_bound n k = k"
  by (simp add: py_bound_def)

lemma py_slice_chunk:
  assumes "(Suc i) * g \<le> length bits"
  shows "py_slice bits (int i * int g) (int g + int i * int g) = take g (drop (i * g) bits)"
proof -
  from assms have le: "i * g \<le> length bits" "g + i * g \<le> length bits" by simp_all
  have lo: "py_bound (int (length bits)) (int i * int g) = int (i * g)"
    using le(1) by (simp add: py_bound_inside flip: of_nat_mult)
  have hi: "py_bound (int (length bits)) (int g + int i * int g) = int (g + i * g)"
    using le(2) by (simp add: py_bound_inside flip: of_nat_mult of_nat_add)
  show ?thesis
    unfolding py_slice_def Let_def lo hi by (simp flip: of_nat_mult)
qed

lemma decode_loop_map:
  "decode_loop bits g msb h idx acc =
     acc @ map (\<lambda>i. render h (accumulate
        (if msb then rev (py_slice bits (int i * g) (g + int i * g))
         else py_slice bits (int i * g) (g + int i * g)) 0 0)) idx"
  by (induction idx arbitrary: acc) (simp_all add: Let_def)

lemma accumulate_foldr:
  "accumulate bs j acc =
     acc OR foldr (OR) (map (\<lambda>k. push_bit (j + k) (bs ! k)) [0..<length bs]) 0"
proof (induction bs arbitrary: j acc)
  case Nil
  then show ?case by simp
next
  case (Cons b bs)
  show ?case
    by (simp add: Cons.IH map_upt_Suc or.assoc del: upt_Suc)
qed

lemma accumulate_or_over: "accumulate bs 0 0 = or_over bs"
  by (simp add: accumulate_foldr or_over_def)

lemma decode_loop_chunks:
  assumes "\<forall>i\<in>set idx. Suc i * g \<le> length bits"
  shows "decode_loop bits (int g) msb h idx [] =
           map (\<lambda>i. render h (chunk_value msb (take g (drop (i * g) bits)))) idx"
  unfolding decode_loop_map chunk_value_def
  using assms by (simp add: py_slice_chunk accumulate_or_over)

lemma decode_positive:
  assumes "0 < g"
  shows "decode_bitstream bits (int g) msb h =
           (if length bits mod g \<noteq> 0 then Inl (CannotGroup (int g) (int (length bits)))
            else Inr (map (\<lambda>c. render h (chunk_value msb c)) (chunks g bits)))"
proof -
  have in_range: "\<forall>i\<in>set [0..<length bits div g]. Suc i * g \<le> length bits"
  proof
    fix i assume "i \<in> set [0..<length bits div g]"
    then have "Suc i \<le> length bits div g" by simp
    then have "Suc i * g \<le> (length bits div g) * g" by (rule mult_le_mono1)
    also have "\<dots> \<le> length bits" by simp
    finally show "Suc i * g \<le> length bits" .
  qed
  have md: "int (length bits) mod int g = int (length bits mod g)"
    and dv: "int (length bits) div int g = int (length bits div g)"
    by (simp_all add: zmod_int zdiv_int)
  show ?thesis
    unfolding decode_bitstream_def Let_def md dv
    using assms by (simp add: decode_loop_chunks [OF in_range] chunks_def comp_def)
qed

lemma chunk_value_binary:
  assumes "set c \<subseteq> {0, 1}"
  shows "chunk_value msb c = binary_value (if msb then rev c else c)"
proof -
  from assms have "set (if msb then rev c else c) \<subseteq> {0, 1}" by simp
  from accumulate_binary [OF this, of 0 0] show ?thesis
    by (simp add: chunk_value_def flip: accumulate_or_over)
qed

lemma chunks_length:
  assumes "length bits = k * g" and "0 < g"
  shows "length (chunks g bits) = k"
  using assms by (simp add: chunks_def)

lemma chunks_member:
  assumes "c \<in> set (chunks g bits)" and "length bits = k * g"
  shows "length c = g \<and> set c \<subseteq> set bits"
proof -
  from assms(1) obtain i where i: "i < length bits div g" and c: "c = take g (drop (i * g) bits)"
    by (auto simp add: chunks_def)
  from i have "Suc i \<le> length bits div g" by simp
  then have "Suc i * g \<le> (length bits div g) * g" by (rule mult_le_mono1)
  also have "\<dots> \<le> length bits" by simp
  finally have "g + i * g \<le> length bits" by simp
  then have "length c = g" unfolding c by simp
  moreover have "set c \<subseteq> set bits"
    unfolding c by (meson set_take_subset set_drop_subset subset_trans)
  ultimately show ?thesis by simp
qed

lemma chunks_Suc:
  assumes "length bits = Suc k * g" and "0 < g"
  shows "chunks g bits = take g bits # chunks g (drop g bits)"
proof -
  from assms have d: "length bits div g = Suc k" by simp
  from assms have d': "(length bits - g) div g = k" by simp
  show ?thesis
    unfolding chunks_def d
    by (simp add: map_upt_Suc d' add.commute del: upt_Suc)
qed

lemma concat_chunks:
  assumes "length bits = k * g" and "0 < g"
  shows "concat (chunks g bits) = bits"
  using assms
proof (induction k arbitrary: bits)
  case 0
  then show ?case by (simp add: chunks_def)
next
  case (Suc k)
  from Suc.prems have "length (drop g bits) = k * g" by simp
  from Suc.IH [OF this Suc.prems(2)] chunks_Suc [OF Suc.prems] show ?case by simp
qed



lemma chunk_value_sum:
  assumes "set c \<subseteq> {0, 1}"
  shows "chunk_value msb c =
           (\<Sum>j<length c. (if msb then c ! (length c - 1 - j) else c ! j) * 2 ^ j)"
proof (cases msb)
  case True
  have "binary_value (rev c) = (\<Sum>j<length c. rev c ! j * 2 ^ j)"
    using binary_value_sum [of "rev c"] by simp
  also have "\<dots> = (\<Sum>j<length c. c ! (length c - 1 - j) * 2 ^ j)"
    by (rule sum.cong) (simp_all add: rev_nth)
  finally show ?thesis using True assms by (simp add: chunk_value_binary)
next
  case False
  with assms show ?thesis by (simp add: chunk_value_binary binary_value_sum)
qed

lemma chunk_value_bounds:
  assumes "set c \<subseteq> {0, 1}"
  shows "0 \<le> chunk_value msb c \<and> chunk_value msb c < 2 ^ length c"
proof -
  from assms have "set (if msb then rev c else c) \<subseteq> {0, 1}" by simp
  from binary_value_bounds [OF this] assms show ?thesis
    by (cases msb) (simp_all add: chunk_value_binary)
qed

lemma expand_bits_chunk_value:
  assumes "set c \<subseteq> {0, 1}"
  shows "expand_bits (length c) msb (chunk_value msb c) = c"
proof (cases msb)
  case True
  from assms have "set (rev c) \<subseteq> {0, 1}" by simp
  from expand_lsb_binary_value [OF this] True assms show ?thesis
    by (simp add: expand_bits_def chunk_value_binary)
next
  case False
  with assms show ?thesis
    by (simp add: expand_bits_def chunk_value_binary expand_lsb_binary_value)
qed

lemma expand_bits_binary: "length (expand_bits g msb n) = g \<and> set (expand_bits g msb n) \<subseteq> {0, 1}"
  using set_expand_lsb [of g n] by (simp add: expand_bits_def length_expand_lsb)

lemma chunk_value_expand_bits:
  assumes "0 \<le> n" and "n < 2 ^ g"
  shows "chunk_value msb (expand_bits g msb n) = n"
proof -
  have "chunk_value msb (expand_bits g msb n) =
          binary_value (if msb then rev (expand_bits g msb n) else expand_bits g msb n)"
    using expand_bits_binary [of g msb n] by (simp add: chunk_value_binary)
  also have "\<dots> = binary_value (expand_lsb g n)"
    by (simp add: expand_bits_def)
  finally show ?thesis using assms by (simp add: binary_value_expand_lsb)
qed

lemma chunk_value_bij:
  "bij_betw (chunk_value msb) {c. length c = g \<and> set c \<subseteq> {0, 1}} {0..<2 ^ g}"
proof (rule bij_betw_byWitness [where f' = "expand_bits g msb"])
  show "\<forall>c\<in>{c. length c = g \<and> set c \<subseteq> {0, 1}}. expand_bits g msb (chunk_value msb c) = c"
    using expand_bits_chunk_value by auto
  show "\<forall>n\<in>{0..<2 ^ g}. chunk_value msb (expand_bits g msb n) = n"
    using chunk_value_expand_bits by auto
  show "chunk_value msb ` {c. length c = g \<and> set c \<subseteq> {0, 1}} \<subseteq> {0..<2 ^ g}"
    using chunk_value_bounds by auto
  show "expand_bits g msb ` {0..<2 ^ g} \<subseteq> {c. length c = g \<and> set c \<subseteq> {0, 1}}"
    using expand_bits_binary by auto
qed

lemma chunks_single:
  assumes "0 < length c"
  shows "chunks (length c) c = [c]"
  using assms by (simp add: chunks_def)

lemma decode_zero: "decode_bitstream bits 0 msb h = Inl ZeroDivisionError"
  by (simp add: decode_bitstream_def)

lemma decode_negative:
  assumes "g < 0"
  shows "decode_bitstream bits g msb h =
           (if int (length bits) mod g \<noteq> 0 then Inl (CannotGroup g (int (length bits)))
            else Inr [])"
proof -
  from assms have "int (length bits) div g \<le> 0"
    by (simp add: div_nonneg_neg_le0)
  with assms show ?thesis
    by (simp add: decode_bitstream_def Let_def)
qed

text \<open>
  C3. For a sequence of bits 0 and 1 whose length is a multiple of a positive
  \<open>group_by\<close>, \<open>decode_bitstream\<close> returns one value for each of the consecutive,
  non-overlapping chunks of \<open>group_by\<close> bits, in the order of the chunks: the OR
  over \<open>j\<close> of \<open>bit_j << j\<close>, taken over the reversed chunk when \<open>MSB_first\<close> is set
  and over the chunk as it is otherwise. That value is the positional binary value
  in which the first bit of the chunk has the weight \<open>2 ^ (group_by - 1)\<close> when
  \<open>MSB_first\<close> is set and the weight 1 otherwise. With \<open>hexadecimal\<close> the value is
  returned as the string \<open>hex\<close> makes of it. The bits 1,0,0,0,0,0,0,0 in a group of 8
  give 0x80 = 128 when \<open>MSB_first\<close> is set and 0x01 = 1 otherwise.
\<close>

theorem decode_chunks_in_order:
  assumes "set bits \<subseteq> {0, 1}" and "0 < group_by" and "length bits = k * group_by"
  shows "decode_bitstream bits (int group_by) MSB_first hexadecimal =
           Inr (map (\<lambda>chunk. render hexadecimal (chunk_value MSB_first chunk))
                  (chunks group_by bits)) \<and>
         concat (chunks group_by bits) = bits \<and>
         length (chunks group_by bits) = k \<and>
         (\<forall>chunk\<in>set (chunks group_by bits).
            length chunk = group_by \<and>
            chunk_value MSB_first chunk =
              (\<Sum>j<group_by.
                 (if MSB_first then chunk ! (group_by - 1 - j) else chunk ! j) * 2 ^ j)) \<and>
         decode_bitstream [1, 0, 0, 0, 0, 0, 0, 0] 8 True False = Inr [Num 128] \<and>
         decode_bitstream [1, 0, 0, 0, 0, 0, 0, 0] 8 False False = Inr [Num 1] \<and>
         decode_bitstream [1, 0, 0, 0, 0, 0, 0, 0] 8 True True = Inr [Hex ''0x80'']"
proof -
  from assms(3) have divides: "length bits mod group_by = 0" by simp
  have result: "decode_bitstream bits (int group_by) MSB_first hexadecimal =
      Inr (map (\<lambda>chunk. render hexadecimal (chunk_value MSB_first chunk)) (chunks group_by bits))"
    using divides by (simp add: decode_positive [OF assms(2)])
  have whole: "concat (chunks group_by bits) = bits"
    using assms(3,2) by (rule concat_chunks)
  have count: "length (chunks group_by bits) = k"
    using assms(3,2) by (rule chunks_length)
  have each: "\<forall>chunk\<in>set (chunks group_by bits).
      length chunk = group_by \<and>
      chunk_value MSB_first chunk =
        (\<Sum>j<group_by. (if MSB_first then chunk ! (group_by - 1 - j) else chunk ! j) * 2 ^ j)"
  proof
    fix chunk assume "chunk \<in> set (chunks group_by bits)"
    from chunks_member [OF this assms(3)] assms(1)
    have len: "length chunk = group_by" and bin: "set chunk \<subseteq> {0, 1}" by auto
    have "chunk_value MSB_first chunk =
        (\<Sum>j<group_by. (if MSB_first then chunk ! (group_by - 1 - j) else chunk ! j) * 2 ^ j)"
      using chunk_value_sum [OF bin, of MSB_first] unfolding len .
    with len show "length chunk = group_by \<and>
      chunk_value MSB_first chunk =
        (\<Sum>j<group_by. (if MSB_first then chunk ! (group_by - 1 - j) else chunk ! j) * 2 ^ j)"
      by (rule conjI)
  qed
  have msb: "decode_bitstream [1, 0, 0, 0, 0, 0, 0, 0] 8 True False = Inr [Num 128]"
    by code_simp
  have lsb: "decode_bitstream [1, 0, 0, 0, 0, 0, 0, 0] 8 False False = Inr [Num 1]"
    by code_simp
  have hexa: "decode_bitstream [1, 0, 0, 0, 0, 0, 0, 0] 8 True True = Inr [Hex ''0x80'']"
    by code_simp
  from result whole count each msb lsb hexa show ?thesis
    by (intro conjI)
qed

theorem decode_chunks_in_order_witness:
  "set [0, 1, 1, 1, 0, 0 :: int] \<subseteq> {0, 1} \<and> (0::nat) < 3 \<and>
   length [0, 1, 1, 1, 0, 0 :: int] = 2 * 3 \<and>
   chunks 3 [0, 1, 1, 1, 0, 0 :: int] = [[0, 1, 1], [1, 0, 0]] \<and>
   decode_bitstream [0, 1, 1, 1, 0, 0] 3 True False = Inr [Num 3, Num 4] \<and>
   decode_bitstream [0, 1, 1, 1, 0, 0] 3 False False = Inr [Num 6, Num 1]"
proof -
  have c: "chunks 3 [0, 1, 1, 1, 0, 0 :: int] = [[0, 1, 1], [1, 0, 0]]"
    by code_simp
  have v: "chunk_value True [0, 1, 1] = 3" "chunk_value False [0, 1, 1] = 6"
    "chunk_value True [1, 0, 0] = 4" "chunk_value False [1, 0, 0] = 1"
    by code_simp+
  from decode_chunks_in_order [of "[0, 1, 1, 1, 0, 0]" 3 2 True False]
    decode_chunks_in_order [of "[0, 1, 1, 1, 0, 0]" 3 2 False False]
  show ?thesis
    by (simp add: c v render_def)
qed

text \<open>
  C4, as stated, at two group sizes that are not positive, each with the bit stream
  of the single bit 1. With the group size 0, \<open>total_length % group_by\<close> raises
  \<open>ZeroDivisionError\<close>: the call neither raises the indivisible-stream error nor
  returns. With the group size \<open>-1\<close>, \<open>1 % -1\<close> is 0, so the length divides
  evenly and the call returns normally, but with no value, where
  \<open>len(bits) / group_size\<close> is \<open>-1\<close>.
\<close>

theorem decode_nonpositive_group_size:
  "decode_bitstream [1] 0 True True = Inl ZeroDivisionError \<and>
   ZeroDivisionError \<noteq> CannotGroup 0 (int (length [1 :: int])) \<and>
   decode_bitstream [1] (- 1) True True = Inr [] \<and>
   int (length [1 :: int]) mod (- 1) = 0 \<and>
   int (length ([] :: decoded list)) \<noteq> int (length [1 :: int]) div (- 1)"
  by (simp add: decode_bitstream_def)

text \<open>
  C4, amended. For every bit sequence and every positive group size,
  \<open>decode_bitstream\<close> raises the indivisible-stream error exactly when
  \<open>len(bits) % group_size\<close> is not 0, and returns normally, with exactly
  \<open>len(bits) / group_size\<close> values, exactly when it is 0. The result is either the
  error or the list of values, so the error comes with no partial result.
\<close>

theorem decode_indivisible_stream:
  assumes "0 < group_by"
  shows "(decode_bitstream bits group_by MSB_first hexadecimal =
            Inl (CannotGroup group_by (int (length bits)))) =
           (int (length bits) mod group_by \<noteq> 0) \<and>
         (\<exists>values.
            decode_bitstream bits group_by MSB_first hexadecimal = Inr values \<and>
            int (length values) = int (length bits) div group_by) =
           (int (length bits) mod group_by = 0)"
proof -
  from assms have g: "0 < nat group_by" and ig: "int (nat group_by) = group_by" by simp_all
  have md: "int (length bits) mod group_by = int (length bits mod nat group_by)"
    and dv: "int (length bits) div group_by = int (length bits div nat group_by)"
    using assms by (simp_all add: zmod_int zdiv_int)
  from decode_positive [OF g, of bits MSB_first hexadecimal] show ?thesis
    unfolding md dv ig by (simp add: chunks_def)
qed

theorem decode_indivisible_stream_witness:
  "(0::int) < 2 \<and>
   decode_bitstream [1, 0, 1] 2 True False = Inl (CannotGroup 2 3) \<and>
   int (length [1, 0, 1 :: int]) mod 2 \<noteq> 0 \<and>
   decode_bitstream [1, 0, 1, 1] 2 True False = Inr [Num 2, Num 3] \<and>
   int (length [Num 2, Num 3]) = int (length [1, 0, 1, 1 :: int]) div 2"
proof -
  have "decode_bitstream [1, 0, 1, 1] 2 True False = Inr [Num 2, Num 3]"
    by code_simp
  with decode_indivisible_stream [of 2 "[1, 0, 1]" True False] show ?thesis
    by simp
qed

text \<open>
  C7. For a chunk of \<open>group_by\<close> bits 0 and 1, with \<open>group_by\<close> positive,
  \<open>decode_bitstream\<close> without \<open>hexadecimal\<close> returns one number, and re-expanding
  that number into \<open>group_by\<close> bits, most significant bit first when \<open>MSB_first\<close> is
  set and least significant bit first otherwise, gives the chunk back. The number of
  a chunk is a bijection from the chunks of \<open>group_by\<close> bits onto the integers from 0
  up to, and without, \<open>2 ^ group_by\<close>.
\<close>

theorem decode_invertible:
  assumes "set chunk \<subseteq> {0, 1}" and "length chunk = group_by" and "0 < group_by"
  shows "decode_bitstream chunk (int group_by) MSB_first False =
           Inr [Num (chunk_value MSB_first chunk)] \<and>
         expand_bits group_by MSB_first (chunk_value MSB_first chunk) = chunk \<and>
         bij_betw (chunk_value MSB_first)
           {c. length c = group_by \<and> set c \<subseteq> {0, 1}} {0..<2 ^ group_by}"
proof -
  from assms(2,3) have single: "chunks group_by chunk = [chunk]"
    using chunks_single [of chunk] by simp
  have result: "decode_bitstream chunk (int group_by) MSB_first False =
      Inr [Num (chunk_value MSB_first chunk)]"
    using assms(2) by (simp add: decode_positive [OF assms(3)] single render_def)
  have regained: "expand_bits group_by MSB_first (chunk_value MSB_first chunk) = chunk"
    using expand_bits_chunk_value [OF assms(1), of MSB_first] assms(2) by simp
  from result regained chunk_value_bij [of MSB_first group_by] show ?thesis
    by (intro conjI)
qed

theorem decode_invertible_witness:
  "set [1, 0, 0, 0, 0, 0, 0, 0 :: int] \<subseteq> {0, 1} \<and>
   length [1, 0, 0, 0, 0, 0, 0, 0 :: int] = 8 \<and> (0::nat) < 8 \<and>
   decode_bitstream [1, 0, 0, 0, 0, 0, 0, 0] 8 True False = Inr [Num 128] \<and>
   expand_bits 8 True 128 = [1, 0, 0, 0, 0, 0, 0, 0]"
proof -
  have v: "chunk_value True [1, 0, 0, 0, 0, 0, 0, 0] = 128"
    by code_simp
  from decode_invertible [of "[1, 0, 0, 0, 0, 0, 0, 0]" 8 True] show ?thesis
    by (simp add: v)
qed

text \<open>
  C10. For a sequence of bits 0 and 1 whose length is a multiple of a positive
  \<open>group_by\<close>, \<open>decode_bitstream\<close> without \<open>hexadecimal\<close> returns a list of numbers,
  each at least 0 and less than \<open>2 ^ group_by\<close>, for both settings of \<open>MSB_first\<close>.
\<close>

theorem decode_values_in_range:
  assumes "set bits \<subseteq> {0, 1}" and "0 < group_by"
    and "int (length bits) mod group_by = 0"
  shows "\<exists>numbers.
           decode_bitstream bits group_by MSB_first False = Inr (map Num numbers) \<and>
           (\<forall>n\<in>set numbers. 0 \<le> n \<and> n < 2 ^ nat group_by)"
proof -
  from assms(2) have g: "0 < nat group_by" and ig: "int (nat group_by) = group_by" by simp_all
  from assms(2,3) have "int (length bits mod nat group_by) = 0"
    by (simp add: zmod_int)
  then have md: "length bits mod nat group_by = 0" by simp
  then have len: "length bits = (length bits div nat group_by) * nat group_by"
    by (simp add: mod_eq_0_iff_dvd)
  let ?numbers = "map (chunk_value MSB_first) (chunks (nat group_by) bits)"
  have result: "decode_bitstream bits group_by MSB_first False = Inr (map Num ?numbers)"
    using decode_positive [OF g, of bits MSB_first False] md
    unfolding ig by (simp add: render_def comp_def)
  have range: "\<forall>n\<in>set ?numbers. 0 \<le> n \<and> n < 2 ^ nat group_by"
  proof
    fix n assume "n \<in> set ?numbers"
    then obtain c where c: "c \<in> set (chunks (nat group_by) bits)" and n: "n = chunk_value MSB_first c"
      by auto
    from chunks_member [OF c len] assms(1)
    have "length c = nat group_by" and "set c \<subseteq> {0, 1}" by auto
    with chunk_value_bounds [of c MSB_first] n show "0 \<le> n \<and> n < 2 ^ nat group_by"
      by simp
  qed
  from result range show ?thesis by blast
qed

theorem decode_values_in_range_witness:
  "set [1, 1, 1, 0, 0, 1 :: int] \<subseteq> {0, 1} \<and> (0::int) < 3 \<and>
   int (length [1, 1, 1, 0, 0, 1 :: int]) mod 3 = 0 \<and>
   decode_bitstream [1, 1, 1, 0, 0, 1] 3 True False = Inr (map Num [7, 1]) \<and>
   (7::int) < 2 ^ nat 3 \<and> (1::int) < 2 ^ nat 3"
proof -
  have "decode_bitstream [1, 1, 1, 0, 0, 1] 3 True False = Inr (map Num [7, 1])"
    by code_simp
  with decode_values_in_range [of "[1, 1, 1, 0, 0, 1]" 3 True] show ?thesis
    by simp
qed

end
